theory Spec2Isabelle
  imports Main
begin

section \<open>Channels of the routing-resource graph (utils/lib/rr_graph/channel.py)\<close>

subsection \<open>Positions, sizes and errors\<close>

text \<open>
  \<^verbatim>\<open>Pos\<close> and \<^verbatim>\<open>Size\<close> are imported from the package; both are pairs of Python
  integers read through \<^verbatim>\<open>.x\<close> and \<^verbatim>\<open>.y\<close>.
\<close>

datatype Pos = Pos (pos_x: int) (pos_y: int)

datatype Size = Size (size_x: int) (size_y: int)

datatype error = ChannelNotStraight | TypeError | AssertionError | KeyError

datatype chan_type = CHANX | CHANY

datatype direction = INC_DIR | DEC_DIR

subsection \<open>Channel\<close>

text \<open>
  The named tuple \<^verbatim>\<open>(start, end, idx)\<close> together with the attribute
  \<^verbatim>\<open>id_override\<close> that \<^verbatim>\<open>__new__\<close> sets on the object.
\<close>

record Channel =
  start :: Pos
  endp :: Pos
  idx :: "int option"
  id_override :: "string option"

definition Channel_new :: "Pos \<Rightarrow> Pos \<Rightarrow> int option \<Rightarrow> string option \<Rightarrow> error + Channel" where
  "Channel_new s e i ov =
     (if pos_x s \<noteq> pos_x e \<and> pos_y s \<noteq> pos_y e then Inl ChannelNotStraight
      else Inr \<lparr>start = s, endp = e, idx = i, id_override = ov\<rparr>)"

definition type :: "Channel \<Rightarrow> error + chan_type" where
  "type c =
     (if pos_x (start c) = pos_x (endp c) then Inr CHANX
      else if pos_y (start c) = pos_y (endp c) then Inr CHANY
      else Inl AssertionError)"

text \<open>
  The accessors below read \<^verbatim>\<open>self.type\<close>. \<^verbatim>\<open>add_channel\<close> may assign
  \<^verbatim>\<open>ch.type\<close> before it reads them, so each accessor has a form that takes the
  value of \<^verbatim>\<open>self.type\<close> and a form that computes it from the end points.
\<close>

definition start0_as :: "chan_type \<Rightarrow> Channel \<Rightarrow> int" where
  "start0_as t c = (case t of CHANY \<Rightarrow> pos_x (start c) | CHANX \<Rightarrow> pos_y (start c))"

definition end0_as :: "chan_type \<Rightarrow> Channel \<Rightarrow> int" where
  "end0_as t c = (case t of CHANY \<Rightarrow> pos_x (endp c) | CHANX \<Rightarrow> pos_y (endp c))"

definition common_as :: "chan_type \<Rightarrow> Channel \<Rightarrow> error + int" where
  "common_as t c =
     (case t of
        CHANY \<Rightarrow> if pos_y (start c) = pos_y (endp c) then Inr (pos_y (start c))
                 else Inl AssertionError
      | CHANX \<Rightarrow> if pos_x (start c) = pos_x (endp c) then Inr (pos_x (start c))
                 else Inl AssertionError)"

definition start0 :: "Channel \<Rightarrow> error + int" where
  "start0 c = (case type c of Inl e \<Rightarrow> Inl e | Inr t \<Rightarrow> Inr (start0_as t c))"

definition end0 :: "Channel \<Rightarrow> error + int" where
  "end0 c = (case type c of Inl e \<Rightarrow> Inl e | Inr t \<Rightarrow> Inr (end0_as t c))"

definition common :: "Channel \<Rightarrow> error + int" where
  "common c = (case type c of Inl e \<Rightarrow> Inl e | Inr t \<Rightarrow> common_as t c)"

definition direction_as :: "chan_type \<Rightarrow> Channel \<Rightarrow> direction" where
  "direction_as t c = (if end0_as t c < start0_as t c then DEC_DIR else INC_DIR)"

definition direction :: "Channel \<Rightarrow> error + direction" where
  "direction c = (case type c of Inl e \<Rightarrow> Inl e | Inr t \<Rightarrow> Inr (direction_as t c))"

definition length_as :: "chan_type \<Rightarrow> Channel \<Rightarrow> int" where
  "length_as t c = \<bar>end0_as t c - start0_as t c\<bar>"

definition length_ch :: "Channel \<Rightarrow> error + int" where
  "length_ch c = (case type c of Inl e \<Rightarrow> Inl e | Inr t \<Rightarrow> Inr (length_as t c))"

text \<open>
  \<^verbatim>\<open>update_idx\<close> builds a new object through \<^verbatim>\<open>__new__\<close>. The method has no
  assignment to \<^verbatim>\<open>self\<close>: the first component of the result is the receiver
  after the call, the second what the call returns.
\<close>

definition update_idx :: "Channel \<Rightarrow> int \<Rightarrow> Channel \<times> (error + Channel)" where
  "update_idx c i = (c, Channel_new (start c) (endp c) (Some i) (id_override c))"

subsection \<open>ChannelGrid\<close>

type_synonym cell = "Channel option list"

record ChannelGrid =
  chan_type :: chan_type
  grid_size :: Size
  cells :: "Pos \<rightharpoonup> cell"

definition range0 :: "int \<Rightarrow> int list" where
  "range0 n = map int [0..<nat n]"

definition ChannelGrid_init :: "Size \<Rightarrow> chan_type \<Rightarrow> ChannelGrid" where
  "ChannelGrid_init sz t =
     \<lparr>chan_type = t, grid_size = sz,
      cells = fold (\<lambda>x m. fold (\<lambda>y m'. m'(Pos x y \<mapsto> [])) (range0 (size_y sz)) m)
                (range0 (size_x sz)) Map.empty\<rparr>"

text \<open>The keys that \<^verbatim>\<open>column(x)\<close> and \<^verbatim>\<open>row(y)\<close> look up, in order.\<close>

definition line_keys :: "ChannelGrid \<Rightarrow> chan_type \<Rightarrow> int \<Rightarrow> Pos list" where
  "line_keys g t c =
     (case t of
        CHANX \<Rightarrow> map (\<lambda>y. Pos c y) (range0 (size_y (grid_size g)))
      | CHANY \<Rightarrow> map (\<lambda>x. Pos x c) (range0 (size_x (grid_size g))))"

fun lookup_all :: "(Pos \<rightharpoonup> cell) \<Rightarrow> Pos list \<Rightarrow> error + cell list" where
  "lookup_all m [] = Inr []"
| "lookup_all m (k # ks) =
     (case m k of
        None \<Rightarrow> Inl KeyError
      | Some p \<Rightarrow> (case lookup_all m ks of Inl e \<Rightarrow> Inl e | Inr ps \<Rightarrow> Inr (p # ps)))"

definition column :: "ChannelGrid \<Rightarrow> int \<Rightarrow> error + cell list" where
  "column g x = lookup_all (cells g) (line_keys g CHANX x)"

definition row :: "ChannelGrid \<Rightarrow> int \<Rightarrow> error + cell list" where
  "row g y = lookup_all (cells g) (line_keys g CHANY y)"

text \<open>
  \<^verbatim>\<open>assert_len_eq\<close> is imported from the package's asserts module: all lists of
  the line have one length.
\<close>

definition assert_len_eq :: "cell list \<Rightarrow> bool" where
  "assert_len_eq l = (\<forall>p \<in> set l. \<forall>q \<in> set l. length p = length q)"

text \<open>\<^verbatim>\<open>while len(p) < n: p.append(None)\<close>\<close>

definition pad :: "cell \<Rightarrow> nat \<Rightarrow> cell" where
  "pad p n = p @ replicate (n - length p) None"

text \<open>
  The slice \<^verbatim>\<open>l[s:e+1]\<close>: Python adds the length to a negative bound and clamps
  both bounds to the list. \<open>slice_lo\<close> and \<open>slice_hi\<close> are the offsets of the first cell
  of the slice and of the first cell after it.
\<close>

definition slice_bound :: "nat \<Rightarrow> int \<Rightarrow> nat" where
  "slice_bound n b = (if b < 0 then nat (max 0 (b + int n)) else min n (nat b))"

definition slice_lo :: "nat \<Rightarrow> int \<Rightarrow> nat" where
  "slice_lo n s = slice_bound n s"

definition slice_hi :: "nat \<Rightarrow> int \<Rightarrow> int \<Rightarrow> nat" where
  "slice_hi n s e = max (slice_bound n s) (slice_bound n (e + 1))"

text \<open>
  One pass of the \<^verbatim>\<open>for p in l[s:e+1]\<close> loop at the index \<open>m\<close>, over the cells of
  the slice: the cells as the pass leaves them, and whether it left through
  \<^verbatim>\<open>break\<close>.
\<close>

fun scan :: "cell list \<Rightarrow> nat \<Rightarrow> cell list \<times> bool" where
  "scan [] m = ([], False)"
| "scan (p # ps) m =
     (if pad p (m + 1) ! m \<noteq> None then (pad p (m + 1) # ps, True)
      else (pad p (m + 1) # fst (scan ps m), snd (scan ps m)))"

text \<open>A cell holds a channel at the index \<open>m\<close>.\<close>

definition occ :: "cell \<Rightarrow> nat \<Rightarrow> bool" where
  "occ p m = (m < length p \<and> p ! m \<noteq> None)"

definition maxlen :: "cell list \<Rightarrow> nat" where
  "maxlen ps = foldr (\<lambda>p n. max (length p) n) ps 0"

lemma pad_nth_occ: "(pad p (Suc m) ! m = None) = (\<not> occ p m)"
  by (auto simp: pad_def occ_def nth_append)

lemma length_pad: "length (pad p n) = max (length p) n"
  by (simp add: pad_def)

lemma scan_blocked_maxlen:
  "snd (scan ps m) \<Longrightarrow> m < maxlen ps \<and> maxlen (fst (scan ps m)) = maxlen ps"
proof (induction ps)
  case Nil
  then show ?case by simp
next
  case (Cons p ps)
  show ?case
  proof (cases "occ p m")
    case True
    then show ?thesis
      by (auto simp: pad_nth_occ maxlen_def length_pad occ_def)
  next
    case False
    with Cons.prems have "snd (scan ps m)" by (simp add: pad_nth_occ)
    with Cons.IH have "m < maxlen ps" "maxlen (fst (scan ps m)) = maxlen ps" by simp_all
    with False show ?thesis
      by (auto simp: pad_nth_occ maxlen_def length_pad)
  qed
qed

text \<open>
  The \<^verbatim>\<open>while True\<close> loop around the pass: a pass that breaks raises the index and
  the next pass starts again at the first cell of the slice. It ends because a pass
  breaks only at an index below the longest list of the slice.
\<close>

function find_idx :: "cell list \<Rightarrow> nat \<Rightarrow> cell list \<times> nat" where
  "find_idx ps m =
     (if snd (scan ps m) then find_idx (fst (scan ps m)) (m + 1) else (fst (scan ps m), m))"
  by pat_completeness auto
termination find_idx
  by (relation "measure (\<lambda>(ps, m). maxlen ps - m)") (auto dest: scan_blocked_maxlen)

declare find_idx.simps [simp del]

text \<open>
  Lines 391 to 414 on the line \<open>l\<close>, whose cells are the lists of the grid themselves:
  the search in the slice, the padding of every cell of the line, the new channel and
  the stores into the slice. The result is what the call returns or raises and the
  cells of the line as they are left.
\<close>

definition place_line :: "cell list \<Rightarrow> int \<Rightarrow> int \<Rightarrow> Channel \<Rightarrow> (error + Channel) \<times> cell list" where
  "place_line l s e ch =
     (let lo = slice_lo (length l) s;
          hi = slice_hi (length l) s e;
          found = find_idx (take (hi - lo) (drop lo l)) 0;
          max_idx = snd found;
          l1 = take lo l @ fst found @ drop hi l;
          l2 = map (\<lambda>p. pad p (max_idx + 1)) l1
      in if \<not> assert_len_eq l2 then (Inl AssertionError, l2)
         else case snd (update_idx ch (int max_idx)) of
                Inl err \<Rightarrow> (Inl err, l2)
              | Inr ch' \<Rightarrow>
                  if idx ch' \<noteq> Some (int max_idx) then (Inl AssertionError, l2)
                  else (Inr ch',
                        take lo l2 @ map (\<lambda>p. p[max_idx := Some ch']) (take (hi - lo) (drop lo l2))
                          @ drop hi l2))"

text \<open>The lists of the line are objects of the grid: what was done to them shows there.\<close>

definition write_line :: "(Pos \<rightharpoonup> cell) \<Rightarrow> Pos list \<Rightarrow> cell list \<Rightarrow> (Pos \<rightharpoonup> cell)" where
  "write_line m ks l = fold (\<lambda>kp m'. m'(fst kp \<mapsto> snd kp)) (zip ks l) m"

text \<open>
  \<^verbatim>\<open>static_property\<close> is imported from the package and is not among the sources.
  Lines 362 to 370 read \<^verbatim>\<open>ch.length\<close>, hence \<^verbatim>\<open>ch.start0\<close> and \<^verbatim>\<open>ch.end0\<close>,
  and then assign \<^verbatim>\<open>ch.type\<close>; lines 372 to 389 read \<^verbatim>\<open>ch.type\<close>,
  \<^verbatim>\<open>ch.common\<close>, \<^verbatim>\<open>ch.start0\<close>, \<^verbatim>\<open>ch.end0\<close> and \<^verbatim>\<open>ch.direction\<close>.
  Whether a property keeps on the object the value of its first read is the parameter
  \<open>memo\<close>: with it, \<^verbatim>\<open>start0\<close>, \<^verbatim>\<open>end0\<close> and \<^verbatim>\<open>direction\<close> of a channel whose
  type was assigned are still those of the type it had; without it, they are those of
  the assigned type. \<open>check_type\<close> gives the type the rest of the call reads and the
  type under which \<^verbatim>\<open>start0\<close> and \<^verbatim>\<open>end0\<close> are read.
\<close>

definition check_type :: "bool \<Rightarrow> ChannelGrid \<Rightarrow> Channel \<Rightarrow> error + (chan_type \<times> chan_type)" where
  "check_type memo g ch =
     (if idx ch \<noteq> None then Inl AssertionError
      else case type ch of
             Inl err \<Rightarrow> Inl err
           | Inr t0 \<Rightarrow>
               if t0 \<noteq> chan_type g then
                 (case length_ch ch of
                    Inl err \<Rightarrow> Inl err
                  | Inr n \<Rightarrow>
                      if n \<noteq> 0 then Inl TypeError
                      else Inr (chan_type g, if memo then t0 else chan_type g))
               else Inr (t0, t0))"

definition span_of :: "chan_type \<Rightarrow> Channel \<Rightarrow> int \<times> int" where
  "span_of t' ch =
     (if direction_as t' ch = DEC_DIR then (end0_as t' ch, start0_as t' ch)
      else (start0_as t' ch, end0_as t' ch))"

text \<open>Lines 372 to 414; every raise of these lines comes before the first change.\<close>

definition place :: "ChannelGrid \<Rightarrow> Channel \<Rightarrow> chan_type \<Rightarrow> chan_type \<Rightarrow> (error + Channel) \<times> ChannelGrid" where
  "place g ch t t' =
     (case common_as t ch of
        Inl err \<Rightarrow> (Inl err, g)
      | Inr c \<Rightarrow>
          (case (case t of CHANX \<Rightarrow> column g c | CHANY \<Rightarrow> row g c) of
             Inl err \<Rightarrow> (Inl err, g)
           | Inr l \<Rightarrow>
               if \<not> assert_len_eq l then (Inl AssertionError, g)
               else if \<not> fst (span_of t' ch) \<le> snd (span_of t' ch) then (Inl AssertionError, g)
               else if \<not> fst (span_of t' ch) < int (length l) then (Inl AssertionError, g)
               else if \<not> snd (span_of t' ch) < int (length l) then (Inl AssertionError, g)
               else (fst (place_line l (fst (span_of t' ch)) (snd (span_of t' ch)) ch),
                     g\<lparr>cells := write_line (cells g) (line_keys g t c)
                          (snd (place_line l (fst (span_of t' ch)) (snd (span_of t' ch)) ch))\<rparr>)))"

definition add_channel :: "bool \<Rightarrow> ChannelGrid \<Rightarrow> Channel \<Rightarrow> (error + Channel) \<times> ChannelGrid" where
  "add_channel memo g ch =
     (case check_type memo g ch of
        Inl err \<Rightarrow> (Inl err, g)
      | Inr tt \<Rightarrow> place g ch (fst tt) (snd tt))"

text \<open>A caller's sequence of calls on one grid, up to the first that raises.\<close>

fun add_channels :: "bool \<Rightarrow> ChannelGrid \<Rightarrow> Channel list \<Rightarrow> (error + Channel list) \<times> ChannelGrid" where
  "add_channels memo g [] = (Inr [], g)"
| "add_channels memo g (ch # chs) =
     (case fst (add_channel memo g ch) of
        Inl err \<Rightarrow> (Inl err, snd (add_channel memo g ch))
      | Inr c \<Rightarrow>
          (case fst (add_channels memo (snd (add_channel memo g ch)) chs) of
             Inl err \<Rightarrow> (Inl err, snd (add_channels memo (snd (add_channel memo g ch)) chs))
           | Inr cs \<Rightarrow> (Inr (c # cs), snd (add_channels memo (snd (add_channel memo g ch)) chs))))"

subsection \<open>Notions the properties are stated with\<close>

text \<open>The index the search of \<open>place_line\<close> ends with.\<close>

definition found_idx :: "cell list \<Rightarrow> int \<Rightarrow> int \<Rightarrow> nat" where
  "found_idx l s e =
     snd (find_idx (take (slice_hi (length l) s e - slice_lo (length l) s)
                      (drop (slice_lo (length l) s) l)) 0)"

text \<open>
  The cell at offset \<open>j\<close> of the line with the common coordinate \<open>c\<close>, the
  coordinate that names the line of a cell, and the number of cells of a line.
\<close>

definition cell_at :: "chan_type \<Rightarrow> int \<Rightarrow> int \<Rightarrow> Pos" where
  "cell_at t c j = (case t of CHANX \<Rightarrow> Pos c j | CHANY \<Rightarrow> Pos j c)"

definition line_coord :: "chan_type \<Rightarrow> Pos \<Rightarrow> int" where
  "line_coord t p = (case t of CHANX \<Rightarrow> pos_x p | CHANY \<Rightarrow> pos_y p)"

definition line_len :: "ChannelGrid \<Rightarrow> chan_type \<Rightarrow> nat" where
  "line_len g t = (case t of CHANX \<Rightarrow> nat (size_y (grid_size g)) | CHANY \<Rightarrow> nat (size_x (grid_size g)))"

text \<open>The list of the cell at \<open>p\<close> holds a channel at the index \<open>i\<close>.\<close>

definition occupied :: "ChannelGrid \<Rightarrow> Pos \<Rightarrow> nat \<Rightarrow> bool" where
  "occupied g p i = (case cells g p of None \<Rightarrow> False | Some l \<Rightarrow> occ l i)"

text \<open>The check of \<^verbatim>\<open>Channel.__new__\<close>.\<close>

definition straight :: "Channel \<Rightarrow> bool" where
  "straight ch = (pos_x (start ch) = pos_x (endp ch) \<or> pos_y (start ch) = pos_y (endp ch))"

subsection \<open>Properties of Channel\<close>

text \<open>
  C6. Constructing a channel raises \<^verbatim>\<open>ChannelNotStraight\<close> exactly when the two end
  points differ in both coordinates; in every other case it returns the channel with
  the given start, end, index and label.
\<close>

theorem Channel_new_not_straight:
  "(Channel_new s e i ov = Inl ChannelNotStraight) = (pos_x s \<noteq> pos_x e \<and> pos_y s \<noteq> pos_y e) \<and>
   (Channel_new s e i ov = Inr \<lparr>start = s, endp = e, idx = i, id_override = ov\<rparr>) =
     (pos_x s = pos_x e \<or> pos_y s = pos_y e)"
  by (auto simp: Channel_new_def)

text \<open>
  C8. For a constructed channel the type is \<^verbatim>\<open>X\<close> (a column) when the two
  \<open>x\<close> agree and \<^verbatim>\<open>Y\<close> (a row) otherwise, so a channel of length zero is a column;
  \<^verbatim>\<open>common\<close> is the coordinate the end points share, \<^verbatim>\<open>start0\<close> and \<^verbatim>\<open>end0\<close>
  are the coordinates along the other axis, the direction is \<^verbatim>\<open>DEC\<close> exactly when
  \<^verbatim>\<open>end0 < start0\<close>, and the length is the absolute difference of the two.
\<close>

theorem accessors_closed_form:
  assumes "Channel_new s e i ov = Inr c"
  shows "type c = Inr (if pos_x s = pos_x e then CHANX else CHANY) \<and>
         (s = e \<longrightarrow> type c = Inr CHANX) \<and>
         common c = Inr (if pos_x s = pos_x e then pos_x s else pos_y s) \<and>
         (pos_x s = pos_x e \<longrightarrow> pos_x e = pos_x s) \<and> (pos_x s \<noteq> pos_x e \<longrightarrow> pos_y e = pos_y s) \<and>
         start0 c = Inr (if pos_x s = pos_x e then pos_y s else pos_x s) \<and>
         end0 c = Inr (if pos_x s = pos_x e then pos_y e else pos_x e) \<and>
         direction c =
           Inr (if (if pos_x s = pos_x e then pos_y e else pos_x e)
                     < (if pos_x s = pos_x e then pos_y s else pos_x s)
                then DEC_DIR else INC_DIR) \<and>
         length_ch c =
           Inr \<bar>(if pos_x s = pos_x e then pos_y e else pos_x e)
                 - (if pos_x s = pos_x e then pos_y s else pos_x s)\<bar>"
  using assms
  by (auto simp: Channel_new_def type_def common_def common_as_def start0_def start0_as_def
      end0_def end0_as_def direction_def direction_as_def length_ch_def length_as_def
      split: if_splits)

theorem accessors_closed_form_witness:
  "Channel_new (Pos 10 0) (Pos 0 0) None None
     = Inr \<lparr>start = Pos 10 0, endp = Pos 0 0, idx = None, id_override = None\<rparr> \<and>
   type \<lparr>start = Pos 10 0, endp = Pos 0 0, idx = None, id_override = None\<rparr> = Inr CHANY \<and>
   common \<lparr>start = Pos 10 0, endp = Pos 0 0, idx = None, id_override = None\<rparr> = Inr 0 \<and>
   start0 \<lparr>start = Pos 10 0, endp = Pos 0 0, idx = None, id_override = None\<rparr> = Inr 10 \<and>
   end0 \<lparr>start = Pos 10 0, endp = Pos 0 0, idx = None, id_override = None\<rparr> = Inr 0 \<and>
   direction \<lparr>start = Pos 10 0, endp = Pos 0 0, idx = None, id_override = None\<rparr> = Inr DEC_DIR \<and>
   length_ch \<lparr>start = Pos 10 0, endp = Pos 0 0, idx = None, id_override = None\<rparr> = Inr 10"
proof -
  have h: "Channel_new (Pos 10 0) (Pos 0 0) None None
     = Inr \<lparr>start = Pos 10 0, endp = Pos 0 0, idx = None, id_override = None\<rparr>"
    by (simp add: Channel_new_def)
  show ?thesis using h accessors_closed_form [OF h] by simp
qed

text \<open>
  C9. \<^verbatim>\<open>update_idx\<close> returns a new channel with the start, end and label of the
  receiver and the given index; the receiver is the same after the call, its index
  included.
\<close>

theorem update_idx_pure:
  assumes "Channel_new s e i0 ov = Inr c"
  shows "update_idx c i = (c, Inr \<lparr>start = s, endp = e, idx = Some i, id_override = ov\<rparr>) \<and>
         idx c = i0"
  using assms by (auto simp: update_idx_def Channel_new_def split: if_splits)

theorem update_idx_pure_witness:
  "Channel_new (Pos 1 4) (Pos 1 8) (Some 0) None
     = Inr \<lparr>start = Pos 1 4, endp = Pos 1 8, idx = Some 0, id_override = None\<rparr> \<and>
   update_idx \<lparr>start = Pos 1 4, endp = Pos 1 8, idx = Some 0, id_override = None\<rparr> 2
     = (\<lparr>start = Pos 1 4, endp = Pos 1 8, idx = Some 0, id_override = None\<rparr>,
        Inr \<lparr>start = Pos 1 4, endp = Pos 1 8, idx = Some 2, id_override = None\<rparr>)"
proof -
  have h: "Channel_new (Pos 1 4) (Pos 1 8) (Some 0) None
     = Inr \<lparr>start = Pos 1 4, endp = Pos 1 8, idx = Some 0, id_override = None\<rparr>"
    by (simp add: Channel_new_def)
  show ?thesis using h update_idx_pure [OF h, of 2] by simp
qed

subsection \<open>The search in a line\<close>

lemma occ_pad: "occ (pad p n) i = occ p i"
  by (auto simp: occ_def pad_def nth_append)

lemma pad_pad: "pad (pad p a) b = pad p (max a b)"
  by (auto simp: pad_def replicate_add [symmetric] max_def)

lemma scan_snd: "snd (scan ps m) = (\<exists>p \<in> set ps. occ p m)"
  by (induction ps) (auto simp: pad_nth_occ)

lemma scan_free: "\<not> snd (scan ps m) \<Longrightarrow> fst (scan ps m) = map (\<lambda>p. pad p (m + 1)) ps"
  by (induction ps) (auto simp: pad_nth_occ)

lemma scan_occ: "(\<exists>q \<in> set (fst (scan ps m)). occ q i) = (\<exists>p \<in> set ps. occ p i)"
  by (induction ps) (auto simp: occ_pad)

lemma scan_pad: "Suc m \<le> n \<Longrightarrow> map (\<lambda>p. pad p n) (fst (scan ps m)) = map (\<lambda>p. pad p n) ps"
  by (induction ps) (auto simp: pad_pad max_def)

lemma find_idx_spec:
  "find_idx ps m = (ps', k) \<Longrightarrow>
     m \<le> k \<and> (\<forall>p \<in> set ps. \<not> occ p k) \<and> (\<forall>i. m \<le> i \<and> i < k \<longrightarrow> (\<exists>p \<in> set ps. occ p i)) \<and>
     ps' = map (\<lambda>p. pad p (Suc k)) ps"
proof (induction ps m arbitrary: ps' k rule: find_idx.induct)
  case (1 ps m)
  show ?case
  proof (cases "snd (scan ps m)")
    case True
    with "1.prems" have rec: "find_idx (fst (scan ps m)) (m + 1) = (ps', k)"
      by (simp add: find_idx.simps [of ps m])
    from "1.IH" [OF True rec]
    have k: "m + 1 \<le> k"
      and free: "\<forall>p \<in> set (fst (scan ps m)). \<not> occ p k"
      and below: "\<forall>i. m + 1 \<le> i \<and> i < k \<longrightarrow> (\<exists>p \<in> set (fst (scan ps m)). occ p i)"
      and ps': "ps' = map (\<lambda>p. pad p (Suc k)) (fst (scan ps m))"
      by blast+
    from free have free': "\<forall>p \<in> set ps. \<not> occ p k"
      using scan_occ [of ps m k] by blast
    have below': "\<exists>p \<in> set ps. occ p i" if "m \<le> i" "i < k" for i
    proof (cases "i = m")
      case True
      with \<open>snd (scan ps m)\<close> show ?thesis by (simp add: scan_snd)
    next
      case False
      with that have "m + 1 \<le> i \<and> i < k" by simp
      with below have "\<exists>p \<in> set (fst (scan ps m)). occ p i" by blast
      then show ?thesis by (simp only: scan_occ)
    qed
    from k have "Suc m \<le> Suc k" by simp
    from scan_pad [OF this, of ps] ps' have "ps' = map (\<lambda>p. pad p (Suc k)) ps" by simp
    with k free' below' show ?thesis by auto
  next
    case False
    with "1.prems" have "ps' = fst (scan ps m)" "k = m"
      by (auto simp: find_idx.simps [of ps m])
    with False show ?thesis
      by (auto simp: scan_free scan_snd)
  qed
qed

lemma slice_le: "slice_lo n s \<le> slice_hi n s e \<and> slice_hi n s e \<le> n"
  by (auto simp: slice_lo_def slice_hi_def slice_bound_def)

lemma slice_in_range:
  "0 \<le> s \<Longrightarrow> s \<le> e \<Longrightarrow> e < int n \<Longrightarrow> slice_lo n s = nat s \<and> slice_hi n s e = nat e + 1"
  by (auto simp: slice_lo_def slice_hi_def slice_bound_def)

lemma split3:
  "lo \<le> hi \<Longrightarrow> hi \<le> length l \<Longrightarrow> take lo l @ take (hi - lo) (drop lo l) @ drop hi l = l"
  by (metis append_take_drop_id drop_drop le_add_diff_inverse2 take_drop add.commute)

lemma slice_mem:
  assumes "lo \<le> hi" "hi \<le> length l"
  shows "(p \<in> set (take (hi - lo) (drop lo l))) = (\<exists>j. lo \<le> j \<and> j < hi \<and> p = l ! j)"
proof
  assume "p \<in> set (take (hi - lo) (drop lo l))"
  then obtain i where i: "i < length (take (hi - lo) (drop lo l))" "take (hi - lo) (drop lo l) ! i = p"
    unfolding in_set_conv_nth by blast
  from i(1) assms have ii: "i < hi - lo" by simp
  with i(2) assms have "p = l ! (lo + i)" by simp
  moreover from ii have "lo \<le> lo + i" "lo + i < hi" by simp_all
  ultimately show "\<exists>j. lo \<le> j \<and> j < hi \<and> p = l ! j" by blast
next
  assume "\<exists>j. lo \<le> j \<and> j < hi \<and> p = l ! j"
  then obtain j where j: "lo \<le> j" "j < hi" "p = l ! j" by blast
  then have a: "j - lo < hi - lo" by simp
  with assms have b: "j - lo < length (take (hi - lo) (drop lo l))" by simp
  from a j assms have "take (hi - lo) (drop lo l) ! (j - lo) = p" by simp
  with b show "p \<in> set (take (hi - lo) (drop lo l))" unfolding in_set_conv_nth by blast
qed

lemma found_idx_spec:
  "(\<forall>j. slice_lo (length l) s \<le> j \<and> j < slice_hi (length l) s e \<longrightarrow> \<not> occ (l ! j) (found_idx l s e)) \<and>
   (\<forall>i < found_idx l s e. \<exists>j. slice_lo (length l) s \<le> j \<and> j < slice_hi (length l) s e \<and> occ (l ! j) i)"
proof -
  let ?lo = "slice_lo (length l) s" and ?hi = "slice_hi (length l) s e"
  let ?mid = "take (?hi - ?lo) (drop ?lo l)"
  let ?k = "found_idx l s e"
  from slice_le [of "length l" s e] have le: "?lo \<le> ?hi" "?hi \<le> length l" by simp_all
  note mem = slice_mem [OF le]
  have f: "find_idx ?mid 0 = (fst (find_idx ?mid 0), ?k)"
    by (simp add: found_idx_def)
  from find_idx_spec [OF f] have
    a: "\<forall>p \<in> set ?mid. \<not> occ p ?k" and
    b: "\<forall>i. i < ?k \<longrightarrow> (\<exists>p \<in> set ?mid. occ p i)" by simp_all
  have free: "\<not> occ (l ! j) ?k" if "?lo \<le> j" "j < ?hi" for j
  proof -
    from that have "l ! j \<in> set ?mid" unfolding mem by blast
    with a show ?thesis by blast
  qed
  have below: "\<exists>j. ?lo \<le> j \<and> j < ?hi \<and> occ (l ! j) i" if "i < ?k" for i
  proof -
    from b that obtain p where p: "p \<in> set ?mid" "occ p i" by blast
    from p(1) obtain j where "?lo \<le> j" "j < ?hi" "p = l ! j" unfolding mem by blast
    with p(2) show ?thesis by blast
  qed
  from free below show ?thesis by blast
qed

lemma assert_len_eq_pad:
  assumes "assert_len_eq l"
  shows "assert_len_eq (map (\<lambda>p. pad p n) l)"
  unfolding assert_len_eq_def
proof (intro ballI)
  fix p q
  assume "p \<in> set (map (\<lambda>p. pad p n) l)" "q \<in> set (map (\<lambda>p. pad p n) l)"
  then obtain p' q' where pq: "p' \<in> set l" "q' \<in> set l" "p = pad p' n" "q = pad q' n"
    by (auto simp: image_iff)
  from assms pq(1,2) have "length p' = length q'" unfolding assert_len_eq_def by blast
  then show "length p = length q" by (simp only: pq length_pad)
qed

lemma update_idx_straight:
  "pos_x (start ch) = pos_x (endp ch) \<or> pos_y (start ch) = pos_y (endp ch) \<Longrightarrow>
   snd (update_idx ch i) = Inr (ch\<lparr>idx := Some i\<rparr>)"
  by (auto simp: update_idx_def Channel_new_def)

lemma place_line_ok:
  assumes len: "assert_len_eq l"
    and str: "pos_x (start ch) = pos_x (endp ch) \<or> pos_y (start ch) = pos_y (endp ch)"
  shows "fst (place_line l s e ch) = Inr (ch\<lparr>idx := Some (int (found_idx l s e))\<rparr>)"
    and "length (snd (place_line l s e ch)) = length l"
    and "j < length l \<Longrightarrow> snd (place_line l s e ch) ! j =
           (if slice_lo (length l) s \<le> j \<and> j < slice_hi (length l) s e
            then (pad (l ! j) (Suc (found_idx l s e)))
                   [found_idx l s e := Some (ch\<lparr>idx := Some (int (found_idx l s e))\<rparr>)]
            else pad (l ! j) (Suc (found_idx l s e)))"
proof -
  let ?lo = "slice_lo (length l) s" and ?hi = "slice_hi (length l) s e"
  let ?mid = "take (?hi - ?lo) (drop ?lo l)"
  let ?k = "found_idx l s e"
  let ?ch = "ch\<lparr>idx := Some (int ?k)\<rparr>"
  from slice_le [of "length l" s e] have le: "?lo \<le> ?hi" "?hi \<le> length l" by simp_all
  define ps' where "ps' = fst (find_idx ?mid 0)"
  have f: "find_idx ?mid 0 = (ps', ?k)"
    by (simp add: found_idx_def ps'_def)
  from find_idx_spec [OF f] have ps': "ps' = map (\<lambda>p. pad p (Suc ?k)) ?mid" by simp
  let ?l1 = "take ?lo l @ ps' @ drop ?hi l"
  have "map (\<lambda>p. pad p (Suc ?k)) ?l1 =
        map (\<lambda>p. pad p (Suc ?k)) (take ?lo l) @ map (\<lambda>p. pad p (Suc ?k)) ?mid
          @ map (\<lambda>p. pad p (Suc ?k)) (drop ?hi l)"
    by (simp add: ps' pad_pad o_def)
  also have "\<dots> = map (\<lambda>p. pad p (Suc ?k)) (take ?lo l @ ?mid @ drop ?hi l)" by simp
  also have "\<dots> = map (\<lambda>p. pad p (Suc ?k)) l" using split3 [OF le] by simp
  finally have l2: "map (\<lambda>p. pad p (Suc ?k)) ?l1 = map (\<lambda>p. pad p (Suc ?k)) l" .
  let ?l2 = "map (\<lambda>p. pad p (Suc ?k)) l"
  let ?l3 = "take ?lo ?l2 @ map (\<lambda>p. p[?k := Some ?ch]) (take (?hi - ?lo) (drop ?lo ?l2)) @ drop ?hi ?l2"
  have pl: "place_line l s e ch = (Inr ?ch, ?l3)"
    using f l2 assert_len_eq_pad [OF len, of "Suc ?k"] update_idx_straight [OF str, of "int ?k"]
    by (simp add: place_line_def Let_def)
  show "fst (place_line l s e ch) = Inr ?ch" by (simp add: pl)
  show "length (snd (place_line l s e ch)) = length l" using le by (simp add: pl)
  show "snd (place_line l s e ch) ! j =
           (if ?lo \<le> j \<and> j < ?hi then (pad (l ! j) (Suc ?k)) [?k := Some ?ch]
            else pad (l ! j) (Suc ?k))" if "j < length l"
    using that le by (auto simp: pl nth_append)
qed

subsection \<open>Lines of the grid\<close>

lemma lookup_all_Inr:
  "lookup_all m ks = Inr l \<Longrightarrow> length l = length ks \<and> (\<forall>j < length ks. m (ks ! j) = Some (l ! j))"
proof (induction ks arbitrary: l)
  case Nil
  then show ?case by simp
next
  case (Cons k ks)
  then obtain p ps where p: "m k = Some p" "lookup_all m ks = Inr ps" "l = p # ps"
    by (auto split: option.splits sum.splits)
  with Cons.IH [OF p(2)] show ?case by (auto simp: nth_Cons split: nat.splits)
qed

lemma lookup_all_InrI:
  "length l = length ks \<Longrightarrow> (\<forall>j < length ks. m (ks ! j) = Some (l ! j)) \<Longrightarrow> lookup_all m ks = Inr l"
proof (induction ks arbitrary: l)
  case Nil
  then show ?case by simp
next
  case (Cons k ks)
  then obtain p ps where l: "l = p # ps" by (cases l) auto
  with Cons.prems have "m k = Some p" by auto
  moreover from Cons.prems l have "length ps = length ks" "\<forall>j < length ks. m (ks ! j) = Some (ps ! j)"
    by auto
  ultimately show ?case using Cons.IH l by simp
qed

lemma lookup_all_cong:
  "(\<forall>k \<in> set ks. m k = m' k) \<Longrightarrow> lookup_all m ks = lookup_all m' ks"
  by (induction ks) (auto split: option.splits)

lemma write_line_notin: "p \<notin> set ks \<Longrightarrow> write_line m ks l p = m p"
  unfolding write_line_def
proof (induction ks arbitrary: l m)
  case Nil
  then show ?case by simp
next
  case (Cons k ks)
  then show ?case by (cases l) auto
qed

lemma write_line_nth:
  "distinct ks \<Longrightarrow> length l = length ks \<Longrightarrow> j < length ks \<Longrightarrow> write_line m ks l (ks ! j) = Some (l ! j)"
proof (induction ks arbitrary: l m j)
  case Nil
  then show ?case by simp
next
  case (Cons k ks)
  then obtain p ps where l: "l = p # ps" by (cases l) auto
  have step: "write_line m (k # ks) (p # ps) = write_line (m(k \<mapsto> p)) ks ps"
    by (simp add: write_line_def)
  show ?case
  proof (cases j)
    case 0
    with Cons.prems have "k \<notin> set ks" by simp
    from write_line_notin [OF this, of "m(k \<mapsto> p)" ps] 0 l show ?thesis by (simp add: step)
  next
    case (Suc j')
    with Cons.prems l have "distinct ks" "length ps = length ks" "j' < length ks" by auto
    from Cons.IH [OF this] Suc l show ?thesis by (simp add: step)
  qed
qed

lemma line_keys_length: "length (line_keys g t c) = line_len g t"
  by (cases t) (simp_all add: line_keys_def line_len_def range0_def)

lemma line_keys_nth: "j < line_len g t \<Longrightarrow> line_keys g t c ! j = cell_at t c (int j)"
  by (cases t) (simp_all add: line_keys_def line_len_def range0_def cell_at_def)

lemma line_keys_distinct: "distinct (line_keys g t c)"
  by (cases t) (auto simp: line_keys_def range0_def distinct_map inj_on_def)

lemma line_keys_mem: "p \<in> set (line_keys g t c) \<Longrightarrow> line_coord t p = c"
  by (cases t) (auto simp: line_keys_def line_coord_def)

subsection \<open>A call that returns\<close>

lemma check_type_Inr:
  assumes "check_type memo g ch = Inr (t, t')"
  shows "t = chan_type g" and "straight ch" and "idx ch = None"
    and "t' = chan_type g \<or> (memo \<and> start ch = endp ch)"
  using assms
  by (auto simp: check_type_def type_def straight_def length_ch_def length_as_def
      end0_as_def start0_as_def Pos.expand split: if_splits sum.splits chan_type.splits)

lemma line_coord_cell_at: "line_coord t (cell_at t c j) = c"
  by (cases t) (simp_all add: line_coord_def cell_at_def)

lemma add_channel_Inr:
  assumes ok: "fst (add_channel memo g ch) = Inr ch'"
    and ct: "check_type memo g ch = Inr (t, t')"
    and cm: "common_as t ch = Inr c"
    and sp: "span_of t' ch = (s, e)"
  shows "\<exists>l. lookup_all (cells g) (line_keys g t c) = Inr l \<and> assert_len_eq l \<and>
             s \<le> e \<and> e < int (length l) \<and> length l = line_len g t \<and>
             ch' = ch\<lparr>idx := Some (int (found_idx l s e))\<rparr> \<and>
             snd (add_channel memo g ch) =
               g\<lparr>cells := write_line (cells g) (line_keys g t c) (snd (place_line l s e ch))\<rparr>"
proof -
  from check_type_Inr [OF ct] have str: "straight ch" by simp
  from ok ct have pl: "fst (place g ch t t') = Inr ch'" by (simp add: add_channel_def)
  have eq: "add_channel memo g ch = place g ch t t'" using ct by (simp add: add_channel_def)
  obtain l where l: "lookup_all (cells g) (line_keys g t c) = Inr l"
    using pl cm by (cases t) (auto simp: place_def column_def row_def split: sum.splits)
  then have l': "(case t of CHANX \<Rightarrow> column g c | CHANY \<Rightarrow> row g c) = Inr l"
    by (cases t) (simp_all add: column_def row_def)
  from pl cm l' sp have chk: "assert_len_eq l" "s \<le> e" "s < int (length l)" "e < int (length l)"
    by (auto simp: place_def split: if_splits)
  with cm l' sp have res: "place g ch t t' =
      (fst (place_line l s e ch),
       g\<lparr>cells := write_line (cells g) (line_keys g t c) (snd (place_line l s e ch))\<rparr>)"
    by (simp add: place_def)
  from str have str': "pos_x (start ch) = pos_x (endp ch) \<or> pos_y (start ch) = pos_y (endp ch)"
    by (simp add: straight_def)
  from place_line_ok(1) [OF chk(1) str', of s e] pl res
  have "ch' = ch\<lparr>idx := Some (int (found_idx l s e))\<rparr>" by simp
  moreover from lookup_all_Inr [OF l] have "length l = line_len g t"
    by (simp add: line_keys_length)
  ultimately show ?thesis using l chk eq res by auto
qed

lemma add_channel_cells:
  assumes ok: "fst (add_channel memo g ch) = Inr ch'"
    and ct: "check_type memo g ch = Inr (t, t')"
    and cm: "common_as t ch = Inr c"
    and sp: "span_of t' ch = (s, e)"
  shows "\<exists>l. lookup_all (cells g) (line_keys g t c) = Inr l \<and> assert_len_eq l \<and>
             s \<le> e \<and> e < int (length l) \<and> length l = line_len g t \<and>
             ch' = ch\<lparr>idx := Some (int (found_idx l s e))\<rparr> \<and>
             (\<forall>p. p \<notin> set (line_keys g t c) \<longrightarrow> cells (snd (add_channel memo g ch)) p = cells g p) \<and>
             (\<forall>j < line_len g t.
                cells g (cell_at t c (int j)) = Some (l ! j) \<and>
                cells (snd (add_channel memo g ch)) (cell_at t c (int j)) =
                  Some (if slice_lo (length l) s \<le> j \<and> j < slice_hi (length l) s e
                        then (pad (l ! j) (Suc (found_idx l s e)))[found_idx l s e := Some ch']
                        else pad (l ! j) (Suc (found_idx l s e))))"
proof -
  from add_channel_Inr [OF ok ct cm sp] obtain l where
    l: "lookup_all (cells g) (line_keys g t c) = Inr l" and len: "assert_len_eq l"
    and se: "s \<le> e" "e < int (length l)" and n: "length l = line_len g t"
    and ch': "ch' = ch\<lparr>idx := Some (int (found_idx l s e))\<rparr>"
    and g': "snd (add_channel memo g ch) =
               g\<lparr>cells := write_line (cells g) (line_keys g t c) (snd (place_line l s e ch))\<rparr>"
    by blast
  from check_type_Inr [OF ct] have str: "pos_x (start ch) = pos_x (endp ch) \<or> pos_y (start ch) = pos_y (endp ch)"
    by (simp add: straight_def)
  note pl = place_line_ok [OF len str, where s = s and e = e]
  have out: "cells (snd (add_channel memo g ch)) p = cells g p" if "p \<notin> set (line_keys g t c)" for p
    using that by (simp add: g' write_line_notin)
  have inl: "cells g (cell_at t c (int j)) = Some (l ! j) \<and>
        cells (snd (add_channel memo g ch)) (cell_at t c (int j)) =
          Some (if slice_lo (length l) s \<le> j \<and> j < slice_hi (length l) s e
                then (pad (l ! j) (Suc (found_idx l s e)))[found_idx l s e := Some ch']
                else pad (l ! j) (Suc (found_idx l s e)))" if j: "j < line_len g t" for j
  proof -
    from lookup_all_Inr [OF l] j have a: "cells g (cell_at t c (int j)) = Some (l ! j)"
      by (simp add: line_keys_length line_keys_nth)
    have "write_line (cells g) (line_keys g t c) (snd (place_line l s e ch)) (line_keys g t c ! j)
          = Some (snd (place_line l s e ch) ! j)"
      using j n by (intro write_line_nth) (simp_all add: line_keys_distinct pl(2) line_keys_length)
    then have "cells (snd (add_channel memo g ch)) (cell_at t c (int j)) = Some (snd (place_line l s e ch) ! j)"
      using j by (simp add: g' line_keys_nth)
    with pl(3) [of j] j n a ch' show ?thesis by simp
  qed
  from l len se n ch' out inl show ?thesis by blast
qed

lemma add_channel_check:
  assumes "fst (add_channel memo g ch) = Inr ch'"
  shows "\<exists>t' c. check_type memo g ch = Inr (chan_type g, t') \<and> common_as (chan_type g) ch = Inr c"
proof (cases "check_type memo g ch")
  case (Inl err)
  with assms show ?thesis by (simp add: add_channel_def)
next
  case (Inr tt)
  then have "check_type memo g ch = Inr (fst tt, snd tt)" by simp
  from check_type_Inr(1) [OF this] Inr have ct: "check_type memo g ch = Inr (chan_type g, snd tt)"
    by (cases tt) simp
  with assms have "fst (place g ch (chan_type g) (snd tt)) = Inr ch'" by (simp add: add_channel_def)
  then obtain c where "common_as (chan_type g) ch = Inr c"
    by (cases "common_as (chan_type g) ch") (simp_all add: place_def)
  with ct show ?thesis by blast
qed

lemma check_type_match:
  assumes "check_type memo g ch = Inr (t, t')" and "type ch = Inr (chan_type g)"
  shows "t' = chan_type g"
  using assms by (auto simp: check_type_def split: if_splits)

lemma in_span:
  assumes "0 \<le> s" "s \<le> e" "e < int (length l)" "j < length l"
  shows "(slice_lo (length l) s \<le> j \<and> j < slice_hi (length l) s e) = (s \<le> int j \<and> int j \<le> e)"
  using slice_in_range [OF assms(1-3)] assms by auto


subsection \<open>Properties of add_channel\<close>

text \<open>
  C10. A call of \<^verbatim>\<open>add_channel\<close> that returns, for a channel of the grid's type,
  leaves the list of every cell outside the row (in a \<^verbatim>\<open>Y\<close> grid) or column (in an
  \<^verbatim>\<open>X\<close> grid) at the channel's common coordinate as it was.
\<close>

theorem add_channel_frame:
  assumes ok: "fst (add_channel memo g ch) = Inr ch'"
    and ty: "type ch = Inr (chan_type g)"
    and cm: "common ch = Inr c"
    and out: "line_coord (chan_type g) p \<noteq> c"
  shows "cells (snd (add_channel memo g ch)) p = cells g p"
proof -
  from add_channel_check [OF ok] obtain t' where ct: "check_type memo g ch = Inr (chan_type g, t')"
    by blast
  from cm ty have cm': "common_as (chan_type g) ch = Inr c" by (simp add: common_def)
  obtain s e where sp: "span_of t' ch = (s, e)" by (cases "span_of t' ch") simp
  from out have "p \<notin> set (line_keys g (chan_type g) c)" by (auto dest: line_keys_mem)
  with add_channel_cells [OF ok ct cm' sp] show ?thesis by blast
qed

text \<open>
  C4, amended. After a call that returns with the index \<open>k\<close>, for a span that starts at a
  non-negative offset: the list of every cell of the whole line is padded with
  \<^verbatim>\<open>None\<close> to at least \<open>k + 1\<close> entries; the cells of the span \<open>[s, e]\<close> hold the
  returned channel at \<open>k\<close>; the cells of the line outside the span keep at \<open>k\<close> what they
  held (\<^verbatim>\<open>None\<close> where the entry is new); the call returns the given channel with
  the index \<open>k\<close>.
\<close>

theorem add_channel_post_state:
  assumes ok: "fst (add_channel memo g ch) = Inr ch'"
    and ct: "check_type memo g ch = Inr (t, t')"
    and cm: "common_as t ch = Inr c"
    and sp: "span_of t' ch = (s, e)"
    and s0: "0 \<le> s"
  shows "\<exists>k. ch' = ch\<lparr>idx := Some (int k)\<rparr> \<and>
           (\<forall>j. 0 \<le> j \<and> j < int (line_len g t) \<longrightarrow>
              (\<exists>p. cells g (cell_at t c j) = Some p \<and>
                   cells (snd (add_channel memo g ch)) (cell_at t c j) =
                     Some (if s \<le> j \<and> j \<le> e then (pad p (Suc k))[k := Some ch']
                           else pad p (Suc k))))"
proof -
  from add_channel_cells [OF ok ct cm sp] obtain l where
    se: "s \<le> e" "e < int (length l)" and n: "length l = line_len g t"
    and ch': "ch' = ch\<lparr>idx := Some (int (found_idx l s e))\<rparr>"
    and inl: "\<forall>j < line_len g t.
                cells g (cell_at t c (int j)) = Some (l ! j) \<and>
                cells (snd (add_channel memo g ch)) (cell_at t c (int j)) =
                  Some (if slice_lo (length l) s \<le> j \<and> j < slice_hi (length l) s e
                        then (pad (l ! j) (Suc (found_idx l s e)))[found_idx l s e := Some ch']
                        else pad (l ! j) (Suc (found_idx l s e)))"
    by blast
  let ?k = "found_idx l s e"
  have "\<exists>p. cells g (cell_at t c j) = Some p \<and>
             cells (snd (add_channel memo g ch)) (cell_at t c j) =
               Some (if s \<le> j \<and> j \<le> e then (pad p (Suc ?k))[?k := Some ch'] else pad p (Suc ?k))"
    if j: "0 \<le> j" "j < int (line_len g t)" for j
  proof -
    from j have jn: "nat j < line_len g t" "int (nat j) = j" by simp_all
    from inl jn(1) have
      "cells g (cell_at t c (int (nat j))) = Some (l ! nat j) \<and>
       cells (snd (add_channel memo g ch)) (cell_at t c (int (nat j))) =
         Some (if slice_lo (length l) s \<le> nat j \<and> nat j < slice_hi (length l) s e
               then (pad (l ! nat j) (Suc ?k))[?k := Some ch']
               else pad (l ! nat j) (Suc ?k))" by blast
    moreover from jn n have "nat j < length l" by simp
    from in_span [OF s0 se this] jn
    have "(slice_lo (length l) s \<le> nat j \<and> nat j < slice_hi (length l) s e) = (s \<le> j \<and> j \<le> e)"
      by simp
    ultimately show ?thesis using jn by simp
  qed
  with ch' show ?thesis by blast
qed

text \<open>
  C1. The index of the returned channel is the least natural number at which no cell of
  the span \<open>[s, e]\<close> of the line holds a channel before the call: it is free in every
  cell of the span, and every smaller index is held in some cell of the span. The grid
  is any grid, so also one reached by earlier calls; the span starts at a non-negative
  offset.
\<close>

theorem add_channel_minimal_index:
  assumes ok: "fst (add_channel memo g ch) = Inr ch'"
    and ct: "check_type memo g ch = Inr (t, t')"
    and cm: "common_as t ch = Inr c"
    and sp: "span_of t' ch = (s, e)"
    and s0: "0 \<le> s"
  shows "\<exists>k. idx ch' = Some (int k) \<and>
           (\<forall>j. s \<le> j \<and> j \<le> e \<longrightarrow> \<not> occupied g (cell_at t c j) k) \<and>
           (\<forall>i < k. \<exists>j. s \<le> j \<and> j \<le> e \<and> occupied g (cell_at t c j) i)"
proof -
  from add_channel_cells [OF ok ct cm sp] obtain l where
    se: "s \<le> e" "e < int (length l)" and n: "length l = line_len g t"
    and ch': "ch' = ch\<lparr>idx := Some (int (found_idx l s e))\<rparr>"
    and inl: "\<forall>j < line_len g t. cells g (cell_at t c (int j)) = Some (l ! j)"
    by blast
  let ?k = "found_idx l s e"
  from slice_in_range [OF s0 se] have lohi: "slice_lo (length l) s = nat s" "slice_hi (length l) s e = nat e + 1"
    by simp_all
  have occ_eq: "occupied g (cell_at t c j) i = occ (l ! nat j) i" if "s \<le> j" "j \<le> e" for j i
  proof -
    from that s0 se n have "nat j < line_len g t" "int (nat j) = j" by simp_all
    with inl have "cells g (cell_at t c j) = Some (l ! nat j)" by metis
    then show ?thesis by (simp add: occupied_def)
  qed
  from found_idx_spec [of l s e] lohi have
    free: "\<forall>j. nat s \<le> j \<and> j < nat e + 1 \<longrightarrow> \<not> occ (l ! j) ?k" and
    below: "\<forall>i < ?k. \<exists>j. nat s \<le> j \<and> j < nat e + 1 \<and> occ (l ! j) i" by simp_all
  have a: "\<not> occupied g (cell_at t c j) ?k" if "s \<le> j" "j \<le> e" for j
  proof -
    from that s0 have "nat s \<le> nat j \<and> nat j < nat e + 1" by linarith
    with free have "\<not> occ (l ! nat j) ?k" by blast
    with occ_eq [OF that] show ?thesis by simp
  qed
  have b: "\<exists>j. s \<le> j \<and> j \<le> e \<and> occupied g (cell_at t c j) i" if "i < ?k" for i
  proof -
    from below that obtain j where j: "nat s \<le> j" "j < nat e + 1" "occ (l ! j) i" by blast
    with s0 se(1) have sj: "s \<le> int j" "int j \<le> e" by linarith+
    from occ_eq [OF sj, of i] j(3) have "occupied g (cell_at t c (int j)) i" by simp
    with sj show ?thesis by blast
  qed
  from ch' a b show ?thesis by auto
qed

end
